theory Spec2Isabelle
  imports Main "HOL-Library.Word"
begin

unbundle bit_operations_syntax

section \<open>Data model\<close>

text \<open>
  The program is \<^verbatim>\<open>src/tools/ss58_to_pub32.py\<close>: one function, \<^verbatim>\<open>ss58_to_pub32\<close>, that
  takes an SS58 address (a Python \<^verbatim>\<open>str\<close>) and a flag and returns the 32-byte public key,
  as a hex string or as \<^verbatim>\<open>bytes\<close>. A Python \<^verbatim>\<open>bytes\<close> value is a list of 8-bit words.
\<close>

type_synonym byte = "8 word"
type_synonym bytes = "byte list"

text \<open>
  The exceptions a call can end in. The source raises \<^verbatim>\<open>ValueError("Invalid SS58 checksum")\<close>
  itself (\<open>ChecksumMismatchError\<close>); \<^verbatim>\<open>base58.b58decode\<close> raises on a character outside the
  alphabet (\<open>DecodeError\<close>); \<^verbatim>\<open>data[0]\<close> on an empty buffer raises Python's
  \<^verbatim>\<open>IndexError\<close>. \<open>MalformedAddressError\<close> is the name the specification gives to a
  length failure; no statement of the source raises it. \<open>InvalidInputError\<close> belongs to
  the encoder of the specification, and \<open>UnboundLocalError\<close> is what Python raises when a
  local variable is read before it has a value.
\<close>

datatype error =
  DecodeError | MalformedAddressError | ChecksumMismatchError | IndexError | InvalidInputError
  | UnboundLocalError

text \<open>The return type \<^verbatim>\<open>str | bytes\<close>.\<close>

datatype pub32 = Hex string | Raw bytes

section \<open>Python primitives used by the source\<close>

text \<open>
  The slice \<^verbatim>\<open>xs[a:b]\<close> for literal bounds \<open>0 \<le> a \<le> b\<close>: never raises, and is cut
  short where the sequence ends.
\<close>

definition slice :: "nat \<Rightarrow> nat \<Rightarrow> 'a list \<Rightarrow> 'a list" where
  "slice a b xs = take (b - a) (drop a xs)"

text \<open>\<^verbatim>\<open>bytes.hex()\<close>: two lowercase hexadecimal digits for each byte, high nibble first.\<close>

definition hexdigit :: "nat \<Rightarrow> char" where
  "hexdigit n = ''0123456789abcdef'' ! n"

definition hex_byte :: "byte \<Rightarrow> string" where
  "hex_byte b = [hexdigit (unat b div 16), hexdigit (unat b mod 16)]"

definition hex :: "bytes \<Rightarrow> string" where
  "hex bs = concat (map hex_byte bs)"

subsection \<open>Base58\<close>

text \<open>
  Modelled from the spec: \<^verbatim>\<open>base58.b58decode\<close> is a third-party library function whose code
  is not part of the repository. The specification says: "Base58-decode address into a byte
  buffer data. Fails with DecodeError if any character lies outside the Base58 alphabet", the
  alphabet being the 58 characters that exclude \<^verbatim>\<open>0\<close>, \<^verbatim>\<open>O\<close>, \<^verbatim>\<open>I\<close> and \<^verbatim>\<open>l\<close>. The decoding
  itself is the standard one: each leading \<^verbatim>\<open>1\<close> (the digit zero) is one zero byte, and the
  remaining digits are a base-58 number, written big-endian in as few bytes as it needs.
\<close>

definition alphabet :: string where
  "alphabet = ''123456789ABCDEFGHJKLMNPQRSTUVWXYZabcdefghijkmnopqrstuvwxyz''"

fun index_of :: "'a \<Rightarrow> 'a list \<Rightarrow> nat" where
  "index_of c [] = 0"
| "index_of c (x # xs) = (if x = c then 0 else Suc (index_of c xs))"

fun b58decode_int :: "nat \<Rightarrow> string \<Rightarrow> nat" where
  "b58decode_int acc [] = acc"
| "b58decode_int acc (c # cs) = b58decode_int (acc * 58 + index_of c alphabet) cs"

fun to_bytes :: "nat \<Rightarrow> bytes" where
  "to_bytes n = (if n = 0 then [] else to_bytes (n div 256) @ [of_nat (n mod 256)])"

declare to_bytes.simps [simp del]

definition b58decode :: "string \<Rightarrow> error + bytes" where
  "b58decode v =
     (if \<exists>c \<in> set v. c \<notin> set alphabet then Inl DecodeError
      else let zeros = length (takeWhile (\<lambda>c. c = CHR ''1'') v);
               acc = b58decode_int 0 (dropWhile (\<lambda>c. c = CHR ''1'') v)
           in Inr (replicate zeros 0 @ to_bytes acc))"

subsection \<open>BLAKE2b\<close>

text \<open>
  Modelled from the spec: \<^verbatim>\<open>hashlib.blake2b\<close> belongs to Python's standard library, not to
  the repository. The specification calls it "a 64-byte-digest BLAKE2b"; the definitions
  below follow RFC 7693 for the unkeyed hash with digest length \<open>nn\<close>. A 64-bit word is
  a natural number below \<open>2 ^ 64\<close>, with the wrap-around of each addition written out.
\<close>

definition IV :: "nat list" where
  "IV = [0x6a09e667f3bcc908, 0xbb67ae8584caa73b, 0x3c6ef372fe94f82b, 0xa54ff53a5f1d36f1,
         0x510e527fade682d1, 0x9b05688c2b3e6c1f, 0x1f83d9abfb41bd6b, 0x5be0cd19137e2179]"

definition sigma_perm :: "nat list list" where
  "sigma_perm =
    [[0, 1, 2, 3, 4, 5, 6, 7, 8, 9, 10, 11, 12, 13, 14, 15],
     [14, 10, 4, 8, 9, 15, 13, 6, 1, 12, 0, 2, 11, 7, 5, 3],
     [11, 8, 12, 0, 5, 2, 15, 13, 10, 14, 3, 6, 7, 1, 9, 4],
     [7, 9, 3, 1, 13, 12, 11, 14, 2, 6, 5, 10, 4, 0, 15, 8],
     [9, 0, 5, 7, 2, 4, 10, 15, 14, 1, 11, 12, 6, 8, 3, 13],
     [2, 12, 6, 10, 0, 11, 8, 3, 4, 13, 7, 5, 15, 14, 1, 9],
     [12, 5, 1, 15, 14, 13, 4, 10, 0, 7, 6, 3, 9, 2, 8, 11],
     [13, 11, 7, 14, 12, 1, 3, 9, 5, 0, 15, 4, 8, 6, 2, 10],
     [6, 15, 14, 9, 11, 3, 0, 8, 12, 2, 13, 7, 1, 4, 10, 5],
     [10, 2, 8, 4, 7, 6, 1, 5, 15, 11, 9, 14, 3, 12, 13, 0]]"

definition add64 :: "nat \<Rightarrow> nat \<Rightarrow> nat" where
  "add64 x y = (x + y) mod 2 ^ 64"

definition rotr64 :: "nat \<Rightarrow> nat \<Rightarrow> nat" where
  "rotr64 n x = x div 2 ^ n + (x mod 2 ^ n) * 2 ^ (64 - n)"

text \<open>The mixing function G of RFC 7693, section 3.1, on the 16-word work vector.\<close>

definition G :: "nat list \<Rightarrow> nat \<Rightarrow> nat \<Rightarrow> nat \<Rightarrow> nat \<Rightarrow> nat \<Rightarrow> nat \<Rightarrow> nat list" where
  "G v a b c d x y =
     (let va = add64 (add64 (v ! a) (v ! b)) x;
          vd = rotr64 32 (v ! d XOR va);
          vc = add64 (v ! c) vd;
          vb = rotr64 24 (v ! b XOR vc);
          va = add64 (add64 va vb) y;
          vd = rotr64 16 (vd XOR va);
          vc = add64 vc vd;
          vb = rotr64 63 (vb XOR vc)
      in v[a := va, b := vb, c := vc, d := vd])"

definition round_fn :: "nat list \<Rightarrow> nat list \<Rightarrow> nat \<Rightarrow> nat list" where
  "round_fn m v i =
     (let s = sigma_perm ! (i mod 10);
          v = G v 0 4 8 12 (m ! (s ! 0)) (m ! (s ! 1));
          v = G v 1 5 9 13 (m ! (s ! 2)) (m ! (s ! 3));
          v = G v 2 6 10 14 (m ! (s ! 4)) (m ! (s ! 5));
          v = G v 3 7 11 15 (m ! (s ! 6)) (m ! (s ! 7));
          v = G v 0 5 10 15 (m ! (s ! 8)) (m ! (s ! 9));
          v = G v 1 6 11 12 (m ! (s ! 10)) (m ! (s ! 11));
          v = G v 2 7 8 13 (m ! (s ! 12)) (m ! (s ! 13));
          v = G v 3 4 9 14 (m ! (s ! 14)) (m ! (s ! 15))
      in v)"

text \<open>
  The compression function F (section 3.2): \<open>h\<close> is the 8-word state, \<open>m\<close> the 16 message
  words of the block, \<open>t\<close> the number of bytes hashed so far, \<open>f\<close> the final-block flag.
\<close>

definition F :: "nat list \<Rightarrow> nat list \<Rightarrow> nat \<Rightarrow> bool \<Rightarrow> nat list" where
  "F h m t f =
     (let v = h @ IV;
          v = v[12 := v ! 12 XOR (t mod 2 ^ 64)];
          v = v[13 := v ! 13 XOR (t div 2 ^ 64 mod 2 ^ 64)];
          v = (if f then v[14 := v ! 14 XOR (2 ^ 64 - 1)] else v);
          v = foldl (round_fn m) v [0 ..< 12]
      in map (\<lambda>i. h ! i XOR v ! i XOR v ! (i + 8)) [0 ..< 8])"

text \<open>Little-endian conversions between bytes and 64-bit words.\<close>

fun le_word :: "bytes \<Rightarrow> nat" where
  "le_word [] = 0"
| "le_word (b # bs) = unat b + 256 * le_word bs"

definition le_bytes :: "nat \<Rightarrow> bytes" where
  "le_bytes w = map (\<lambda>i. of_nat (w div 256 ^ i mod 256)) [0 ..< 8]"

text \<open>A 128-byte block, padded with zero bytes when shorter, as 16 words.\<close>

definition block_words :: "bytes \<Rightarrow> nat list" where
  "block_words b =
     (let p = b @ replicate (128 - length b) 0
      in map (\<lambda>i. le_word (take 8 (drop (8 * i) p))) [0 ..< 16])"

text \<open>
  The loop over the message (section 3.3, without a key): every block but the last is
  compressed with the flag off; the last one (the only one to be padded, and empty only for
  the empty message) with the flag on. \<open>t\<close> counts the bytes consumed before this call.
\<close>

function blake2b_loop :: "nat list \<Rightarrow> nat \<Rightarrow> bytes \<Rightarrow> nat list" where
  "blake2b_loop h t msg =
     (if length msg \<le> 128 then F h (block_words msg) (t + length msg) True
      else blake2b_loop (F h (block_words (take 128 msg)) (t + 128) False) (t + 128)
             (drop 128 msg))"
  by pat_completeness auto
termination
  by (relation "measure (\<lambda>(h, t, msg). length msg)") auto

declare blake2b_loop.simps [simp del]

definition blake2b :: "bytes \<Rightarrow> nat \<Rightarrow> bytes" where
  "blake2b msg nn =
     (let h = IV[0 := IV ! 0 XOR 0x01010000 XOR nn]
      in take nn (concat (map le_bytes (blake2b_loop h 0 msg))))"

section \<open>The decoder\<close>

text \<open>
  Lines 20 to 28 of \<^verbatim>\<open>ss58_to_pub32\<close>: the three fields cut out of the decoded buffer.
  \<^verbatim>\<open>data[0]\<close> raises \<^verbatim>\<open>IndexError\<close> on the empty buffer; the slices never raise.
\<close>

record fields =
  prefix :: bytes
  pubkey :: bytes
  checksum :: bytes

definition split_fields :: "bytes \<Rightarrow> error + fields" where
  "split_fields data =
     (case data of
        [] \<Rightarrow> Inl IndexError
      | d0 # _ \<Rightarrow>
          if d0 < 64
          then Inr \<lparr>prefix = slice 0 1 data, pubkey = slice 1 33 data,
                    checksum = slice 33 35 data\<rparr>
          else Inr \<lparr>prefix = slice 0 2 data, pubkey = slice 2 34 data,
                    checksum = slice 34 36 data\<rparr>)"

text \<open>The domain tag \<^verbatim>\<open>b'SS58PRE'\<close>.\<close>

definition SS58PRE :: bytes where
  "SS58PRE = [0x53, 0x53, 0x35, 0x38, 0x50, 0x52, 0x45]"

text \<open>Lines 30 to 38: the checksum is recomputed and compared, then the key is returned.\<close>

definition verify_and_format :: "fields \<Rightarrow> bool \<Rightarrow> error + pub32" where
  "verify_and_format f as_hex =
     (let h = blake2b (SS58PRE @ prefix f @ pubkey f) 64
      in if checksum f \<noteq> slice 0 2 h then Inl ChecksumMismatchError
         else if as_hex then Inr (Hex (''0x'' @ hex (pubkey f)))
         else Inr (Raw (pubkey f)))"

definition ss58_to_pub32 :: "string \<Rightarrow> bool \<Rightarrow> error + pub32" where
  "ss58_to_pub32 ss58_address as_hex =
     (case b58decode ss58_address of
        Inl e \<Rightarrow> Inl e
      | Inr data \<Rightarrow>
          (case split_fields data of
             Inl e \<Rightarrow> Inl e
           | Inr f \<Rightarrow> verify_and_format f as_hex))"

section \<open>The decoder, statement by statement\<close>












section \<open>The encoder of the specification\<close>

text \<open>
  Modelled from the spec: the operation \<^verbatim>\<open>encode(public_key, prefix)\<close> is described by
  the specification and is not present in the repository. "Concatenate prefix || public_key,
  compute the BLAKE2b-512 checksum over "SS58PRE" || prefix || public_key, take its first 2
  bytes, append, Base58-encode the full buffer"; it "fails with InvalidInputError" unless the
  key has exactly 32 bytes and the prefix 1 or 2. Base58 encoding is the standard one: a
  \<^verbatim>\<open>1\<close> for each leading zero byte, then the digits of the buffer read as a big-endian
  number.
\<close>

fun b58digits :: "nat \<Rightarrow> string" where
  "b58digits n = (if n = 0 then [] else b58digits (n div 58) @ [alphabet ! (n mod 58)])"

declare b58digits.simps [simp del]

definition from_bytes :: "bytes \<Rightarrow> nat" where
  "from_bytes bs = foldl (\<lambda>acc b. acc * 256 + unat b) 0 bs"

definition b58encode :: "bytes \<Rightarrow> string" where
  "b58encode v =
     replicate (length (takeWhile (\<lambda>b. b = 0) v)) CHR ''1'' @ b58digits (from_bytes v)"

definition encode :: "bytes \<Rightarrow> bytes \<Rightarrow> error + string" where
  "encode public_key prefix_bytes =
     (if length public_key \<noteq> 32 \<or> (length prefix_bytes \<noteq> 1 \<and> length prefix_bytes \<noteq> 2)
      then Inl InvalidInputError
      else let cs = take 2 (blake2b (SS58PRE @ prefix_bytes @ public_key) 64)
           in Inr (b58encode (prefix_bytes @ public_key @ cs)))"

text \<open>\<^verbatim>\<open>decode(encode(k, p))\<close>: the decoder of the source applied to the encoder's string.\<close>

definition decode_encode :: "bytes \<Rightarrow> bytes \<Rightarrow> bool \<Rightarrow> error + pub32" where
  "decode_encode k p h = (case encode k p of Inl e \<Rightarrow> Inl e | Inr a \<Rightarrow> ss58_to_pub32 a h)"

text \<open>
  The prefixes that the decoder reads back with their own length: one byte below 64, or two
  bytes of which the first is 64 or more.
\<close>

definition matching_prefix :: "bytes \<Rightarrow> bool" where
  "matching_prefix p = ((length p = 1 \<and> p ! 0 < 64) \<or> (length p = 2 \<and> 64 \<le> p ! 0))"

section \<open>Notions used in the statements\<close>

text \<open>
  A buffer is truncated when it is not empty and shorter than its branch needs: 35 bytes
  when the first byte is below 64, 36 bytes otherwise.
\<close>

definition truncated :: "bytes \<Rightarrow> bool" where
  "truncated data =
     (data \<noteq> [] \<and> (if data ! 0 < 64 then length data < 35 else length data < 36))"

text \<open>
  The value of a lowercase hexadecimal digit: its position in \<^verbatim>\<open>0123456789abcdef\<close> (16 for
  any other character).
\<close>

definition hexval :: "char \<Rightarrow> nat" where
  "hexval c = index_of c ''0123456789abcdef''"


section \<open>A known address\<close>

text \<open>
  The address \<^verbatim>\<open>5ETsYe7MLH6Mf9xAMgrLhYL2K1fQXBzn7g7bFHXRgFP3FZvT\<close> of the repository
  (\<^verbatim>\<open>src/tools/32.py\<close>) and its 35 decoded bytes: the prefix 42, the key, the checksum.
\<close>

definition known_address :: string where
  "known_address = ''5ETsYe7MLH6Mf9xAMgrLhYL2K1fQXBzn7g7bFHXRgFP3FZvT''"

definition known_key :: bytes where
  "known_key = [106, 35, 186, 85, 31, 61, 46, 52, 46, 156, 77, 3, 9, 143, 174, 59, 1, 133,
                184, 49, 181, 10, 199, 28, 228, 180, 150, 177, 105, 74, 187, 86]"

text \<open>The same 35 bytes followed by one more byte, as a Base58 string.\<close>

definition padded_address :: string where
  "padded_address = ''KgRc6eo2k62eBQWUJJtmwwGxnVvWpFY28Te6A3wHvEUGwJJum''"

text \<open>What the encoder gives for the same key and the one-byte prefix 64.\<close>

definition wide_address :: string where
  "wide_address = ''7RnPEU2DngLM6SrNHQCs1NBNXgosjDrEGNJUnKg3s4TmSgR5''"

section \<open>Facts about the primitives\<close>

lemma length_slice: "length (slice a b xs) = min (b - a) (length xs - a)"
  by (simp add: slice_def)

lemma length_le_bytes: "length (le_bytes w) = 8"
  by (simp add: le_bytes_def)

lemma length_F: "length (F h m t f) = 8"
  by (simp add: F_def Let_def)

lemma length_blake2b_loop: "length (blake2b_loop h t msg) = 8"
proof (induction h t msg rule: blake2b_loop.induct)
  case (1 h t msg)
  show ?case
  proof (cases "length msg \<le> 128")
    case True
    then show ?thesis by (subst blake2b_loop.simps) (simp add: length_F)
  next
    case False
    then show ?thesis using 1 by (subst blake2b_loop.simps) simp
  qed
qed

lemma length_concat_le_bytes: "length (concat (map le_bytes ws)) = 8 * length ws"
  by (induction ws) (simp_all add: length_le_bytes)

lemma length_blake2b: "nn \<le> 64 \<Longrightarrow> length (blake2b msg nn) = nn"
  by (simp add: blake2b_def Let_def length_concat_le_bytes length_blake2b_loop)

lemma length_digest_head: "length (slice 0 2 (blake2b msg 64)) = 2"
  by (simp add: length_slice length_blake2b)

lemma split_fields_Cons:
  "split_fields (d0 # ds) =
     (if d0 < 64
      then Inr \<lparr>prefix = slice 0 1 (d0 # ds), pubkey = slice 1 33 (d0 # ds),
                checksum = slice 33 35 (d0 # ds)\<rparr>
      else Inr \<lparr>prefix = slice 0 2 (d0 # ds), pubkey = slice 2 34 (d0 # ds),
                checksum = slice 34 36 (d0 # ds)\<rparr>)"
  by (simp add: split_fields_def)

lemma split_fields_Nil: "split_fields [] = Inl IndexError"
  by (simp add: split_fields_def)

lemma split_fields_Inr_iff: "(\<exists>f. split_fields data = Inr f) \<longleftrightarrow> data \<noteq> []"
  by (cases data) (simp_all add: split_fields_Cons split_fields_Nil)

lemma ss58_to_pub32_decoded:
  "b58decode s = Inr data \<Longrightarrow>
   ss58_to_pub32 s h =
     (case split_fields data of Inl e \<Rightarrow> Inl e | Inr f \<Rightarrow> verify_and_format f h)"
  by (simp add: ss58_to_pub32_def)

lemma verify_and_format_short:
  "length (checksum f) < 2 \<Longrightarrow> verify_and_format f h = Inl ChecksumMismatchError"
proof -
  assume short: "length (checksum f) < 2"
  have "length (slice 0 2 (blake2b (SS58PRE @ prefix f @ pubkey f) 64)) = 2"
    by (rule length_digest_head)
  with short have "checksum f \<noteq> slice 0 2 (blake2b (SS58PRE @ prefix f @ pubkey f) 64)"
    by auto
  then show ?thesis by (simp add: verify_and_format_def Let_def)
qed

lemma truncated_checksum_length:
  assumes "truncated data" and "split_fields data = Inr f"
  shows "length (checksum f) < 2"
proof (cases data)
  case Nil
  with assms show ?thesis by (simp add: truncated_def)
next
  case (Cons d0 ds)
  with assms show ?thesis
    by (auto simp: truncated_def split_fields_Cons length_slice split: if_splits)
qed

lemma truncated_raises:
  assumes "b58decode s = Inr data" and "truncated data"
  shows "ss58_to_pub32 s h = Inl ChecksumMismatchError"
proof -
  from assms(2) have "data \<noteq> []" by (simp add: truncated_def)
  then obtain f where f: "split_fields data = Inr f"
    using split_fields_Inr_iff by blast
  with assms(2) have "length (checksum f) < 2" by (rule truncated_checksum_length)
  then have "verify_and_format f h = Inl ChecksumMismatchError"
    by (rule verify_and_format_short)
  with assms(1) f show ?thesis by (simp add: ss58_to_pub32_decoded)
qed

lemma empty_raises:
  "b58decode s = Inr [] \<Longrightarrow> ss58_to_pub32 s h = Inl IndexError"
  by (simp add: ss58_to_pub32_decoded split_fields_Nil)

lemma b58decode_empty: "b58decode [] = Inr []"
  by (simp add: b58decode_def to_bytes.simps)

lemma b58decode_one: "b58decode ''1'' = Inr [0]"
  by (simp add: b58decode_def alphabet_def to_bytes.simps)

subsection \<open>Lowercase hexadecimal output\<close>

lemma hexdigit_lower: "n < 16 \<Longrightarrow> hexdigit n \<in> set ''0123456789abcdef''"
  unfolding hexdigit_def by (rule nth_mem) simp

lemma hex_byte_lower: "set (hex_byte b) \<subseteq> set ''0123456789abcdef''"
proof -
  have "unat b < 256" using unsigned_less [of b] by simp
  then have "unat b div 16 < 16" by simp
  then have "hexdigit (unat b div 16) \<in> set ''0123456789abcdef''"
    by (rule hexdigit_lower)
  moreover have "hexdigit (unat b mod 16) \<in> set ''0123456789abcdef''"
    by (rule hexdigit_lower) simp
  ultimately show ?thesis by (simp add: hex_byte_def)
qed

lemma hex_lower: "set (hex bs) \<subseteq> set ''0123456789abcdef''"
proof (induction bs)
  case Nil
  show ?case by (simp add: hex_def)
next
  case (Cons b bs)
  then show ?case using hex_byte_lower [of b] by (simp add: hex_def)
qed

lemma length_hex: "length (hex bs) = 2 * length bs"
  by (induction bs) (simp_all add: hex_def hex_byte_def)

lemma verify_and_format_Inr:
  assumes "verify_and_format f h = Inr r"
  shows "checksum f = take 2 (blake2b (SS58PRE @ prefix f @ pubkey f) 64)
         \<and> r = (if h then Hex (''0x'' @ hex (pubkey f)) else Raw (pubkey f))"
  using assms by (auto simp: verify_and_format_def Let_def slice_def split: if_splits)

lemma success_fields:
  assumes "ss58_to_pub32 s h = Inr r"
  shows "\<exists>data f. b58decode s = Inr data \<and> split_fields data = Inr f
           \<and> verify_and_format f h = Inr r"
  using assms by (auto simp: ss58_to_pub32_def split: sum.splits)

lemma success_not_truncated:
  assumes "ss58_to_pub32 s h = Inr r" and "b58decode s = Inr data"
  shows "data \<noteq> [] \<and> \<not> truncated data"
proof -
  have "data \<noteq> []" using assms empty_raises [of s h] by auto
  moreover have "\<not> truncated data" using assms truncated_raises [of s data h] by auto
  ultimately show ?thesis by simp
qed

lemma full_length_pubkey:
  assumes "data \<noteq> []" and "\<not> truncated data" and "split_fields data = Inr f"
  shows "length (pubkey f) = 32"
proof (cases data)
  case Nil
  with assms show ?thesis by simp
next
  case (Cons d0 ds)
  with assms show ?thesis
    by (auto simp: truncated_def split_fields_Cons length_slice split: if_splits)
qed

section \<open>Evaluation at the known address\<close>

lemma Let_list: "Let (x # xs) f = f (x # xs)"
  by simp

lemma upt_8: "[0..<8] = [0, 1, 2, 3, 4, 5, 6, 7::nat]"
  by code_simp

lemma upt_12: "[0..<12] = [0, 1, 2, 3, 4, 5, 6, 7, 8, 9, 10, 11::nat]"
  by code_simp

lemma upt_16: "[0..<16] = [0, 1, 2, 3, 4, 5, 6, 7, 8, 9, 10, 11, 12, 13, 14, 15::nat]"
  by code_simp

lemma le_word_zeros: "le_word (replicate n 0) = 0"
  by (induction n) simp_all

lemma blake2b_one_block:
  "length msg \<le> 128 \<Longrightarrow>
   blake2b msg nn = take nn (concat (map le_bytes
      (F (IV[0 := IV ! 0 XOR 0x01010000 XOR nn]) (block_words msg) (length msg) True)))"
  by (simp add: blake2b_def Let_def blake2b_loop.simps [of _ 0 msg])

lemma known_digest_head: "take 2 (blake2b (SS58PRE @ 42 # known_key) 64) = [217, 172]"
  by (simp add: blake2b_one_block SS58PRE_def known_key_def block_words_def le_word_zeros
      F_def le_bytes_def round_fn_def sigma_perm_def G_def IV_def add64_def rotr64_def
      Let_list upt_8 upt_12 upt_16 cong: let_weak_cong)

lemma b58decode_known: "b58decode known_address = Inr (42 # known_key @ [217, 172])"
  by (simp add: b58decode_def known_address_def known_key_def alphabet_def to_bytes.simps)

lemma b58decode_padded: "b58decode padded_address = Inr (42 # known_key @ [217, 172, 0])"
  by (simp add: b58decode_def padded_address_def known_key_def alphabet_def to_bytes.simps)

lemma split_fields_known:
  "split_fields (42 # known_key @ [217, 172] @ rest) =
     Inr \<lparr>prefix = [42], pubkey = known_key, checksum = [217, 172]\<rparr>"
  by (simp add: split_fields_Cons slice_def known_key_def)

lemma verify_known:
  "verify_and_format \<lparr>prefix = [42], pubkey = known_key, checksum = [217, 172]\<rparr> h =
     Inr (if h then Hex (''0x'' @ hex known_key) else Raw known_key)"
  by (simp add: verify_and_format_def slice_def known_digest_head)

lemma hex_known_key:
  "hex known_key = ''6a23ba551f3d2e342e9c4d03098fae3b0185b831b50ac71ce4b496b1694abb56''"
  by (simp add: hex_def hex_byte_def hexdigit_def known_key_def)

lemma decode_known:
  "ss58_to_pub32 known_address h =
     Inr (if h then Hex (''0x'' @ hex known_key) else Raw known_key)"
  using split_fields_known [of "[]"]
  by (simp add: ss58_to_pub32_decoded [OF b58decode_known] verify_known)

lemma decode_padded:
  "ss58_to_pub32 padded_address h =
     Inr (if h then Hex (''0x'' @ hex known_key) else Raw known_key)"
  using split_fields_known [of "[0]"]
  by (simp add: ss58_to_pub32_decoded [OF b58decode_padded] verify_known)

section \<open>Base58 encoding and decoding are inverse\<close>

lemma length_alphabet: "length alphabet = 58"
  by (simp add: alphabet_def)

lemma distinct_alphabet: "distinct alphabet"
  by (simp add: alphabet_def)

lemma alphabet_0: "alphabet ! 0 = CHR ''1''"
  by (simp add: alphabet_def)

lemma index_of_nth: "distinct xs \<Longrightarrow> i < length xs \<Longrightarrow> index_of (xs ! i) xs = i"
proof (induction xs arbitrary: i)
  case Nil
  then show ?case by simp
next
  case (Cons x xs)
  show ?case
  proof (cases i)
    case 0
    then show ?thesis by simp
  next
    case (Suc j)
    with Cons.prems have "j < length xs" and "xs ! j \<in> set xs" and "x \<notin> set xs" and "distinct xs"
      by auto
    with Cons.IH [of j] Suc show ?thesis by auto
  qed
qed

lemma digit_in_alphabet: "alphabet ! (n mod 58) \<in> set alphabet"
  by (rule nth_mem) (simp add: length_alphabet)

lemma digit_is_one: "d < 58 \<Longrightarrow> alphabet ! d = CHR ''1'' \<longleftrightarrow> d = 0"
  using nth_eq_iff_index_eq [OF distinct_alphabet, of d 0]
  by (simp add: length_alphabet alphabet_0)

lemma b58digits_alphabet: "set (b58digits n) \<subseteq> set alphabet"
proof (induction n rule: b58digits.induct)
  case (1 n)
  show ?case
  proof (cases "n = 0")
    case True
    then show ?thesis by (simp add: b58digits.simps)
  next
    case False
    with 1 show ?thesis
      by (subst b58digits.simps) (simp add: digit_in_alphabet)
  qed
qed

lemma b58decode_int_snoc:
  "b58decode_int acc (xs @ [c]) = b58decode_int acc xs * 58 + index_of c alphabet"
  by (induction xs arbitrary: acc) simp_all

lemma b58decode_int_digits: "b58decode_int 0 (b58digits n) = n"
proof (induction n rule: b58digits.induct)
  case (1 n)
  show ?case
  proof (cases "n = 0")
    case True
    then show ?thesis by (simp add: b58digits.simps)
  next
    case False
    have "index_of (alphabet ! (n mod 58)) alphabet = n mod 58"
      by (rule index_of_nth [OF distinct_alphabet]) (simp add: length_alphabet)
    with False 1 show ?thesis
      by (subst b58digits.simps) (simp add: b58decode_int_snoc)
  qed
qed

lemma b58digits_leading:
  "n \<noteq> 0 \<Longrightarrow> b58digits n \<noteq> [] \<and> hd (b58digits n) \<noteq> CHR ''1''"
proof (induction n rule: b58digits.induct)
  case (1 n)
  from "1.prems" have eq: "b58digits n = b58digits (n div 58) @ [alphabet ! (n mod 58)]"
    by (subst b58digits.simps) simp
  show ?case
  proof (cases "n div 58 = 0")
    case True
    then have "n < 58" by (simp add: div_eq_0_iff)
    with "1.prems" have "alphabet ! (n mod 58) \<noteq> CHR ''1''"
      by (simp add: digit_is_one)
    with True eq show ?thesis by (simp add: b58digits.simps)
  next
    case False
    with "1.IH" "1.prems" have "b58digits (n div 58) \<noteq> []"
      and "hd (b58digits (n div 58)) \<noteq> CHR ''1''" by auto
    with eq show ?thesis by simp
  qed
qed

lemma strip_ones:
  assumes "ds = [] \<or> hd ds \<noteq> CHR ''1''"
  shows "takeWhile (\<lambda>c. c = CHR ''1'') (replicate z CHR ''1'' @ ds) = replicate z CHR ''1''"
    and "dropWhile (\<lambda>c. c = CHR ''1'') (replicate z CHR ''1'' @ ds) = ds"
  using assms by (induction z) (cases ds; simp)+

lemma from_bytes_snoc: "from_bytes (bs @ [b]) = from_bytes bs * 256 + unat b"
  by (simp add: from_bytes_def)

lemma from_bytes_zero: "from_bytes bs = 0 \<longleftrightarrow> (\<forall>b \<in> set bs. b = 0)"
proof (induction bs rule: rev_induct)
  case Nil
  show ?case by (simp add: from_bytes_def)
next
  case (snoc b bs)
  then show ?case by (auto simp: from_bytes_snoc unsigned_eq_0_iff)
qed

lemma to_bytes_from_bytes: "to_bytes (from_bytes v) = dropWhile (\<lambda>b. b = 0) v"
proof (induction v rule: rev_induct)
  case Nil
  show ?case by (simp add: from_bytes_def to_bytes.simps)
next
  case (snoc b bs)
  let ?n = "from_bytes (bs @ [b])"
  have ub: "unat b < 256" using unsigned_less [of b] by simp
  show ?case
  proof (cases "?n = 0")
    case True
    then have "\<forall>x \<in> set (bs @ [b]). x = 0" by (simp only: from_bytes_zero)
    then have "dropWhile (\<lambda>b. b = 0) (bs @ [b]) = []" by simp
    with True show ?thesis by (simp add: to_bytes.simps)
  next
    case False
    have d: "?n div 256 = from_bytes bs" and m: "?n mod 256 = unat b"
      using ub by (simp_all add: from_bytes_snoc)
    from False have "to_bytes ?n = to_bytes (?n div 256) @ [of_nat (?n mod 256)]"
      by (subst to_bytes.simps) simp
    with d m snoc.IH have tb: "to_bytes ?n = dropWhile (\<lambda>b. b = 0) bs @ [b]" by simp
    show ?thesis
    proof (cases "\<forall>x \<in> set bs. x = 0")
      case True
      then have "from_bytes bs = 0" by (simp add: from_bytes_zero)
      with False have "b \<noteq> 0" by (auto simp: from_bytes_snoc)
      with True tb show ?thesis by simp
    next
      case False
      then have "dropWhile (\<lambda>b. b = 0) (bs @ [b]) = dropWhile (\<lambda>b. b = 0) bs @ [b]"
        by (auto simp: dropWhile_append1)
      with tb show ?thesis by simp
    qed
  qed
qed

lemma zeros_then_rest:
  "replicate (length (takeWhile (\<lambda>b. b = 0) v)) 0 @ dropWhile (\<lambda>b. b = 0) v = (v :: bytes)"
  by (induction v) simp_all

lemma b58_roundtrip: "b58decode (b58encode v) = Inr v"
proof -
  let ?z = "length (takeWhile (\<lambda>b. b = 0) v)"
  let ?ds = "b58digits (from_bytes v)"
  have lead: "?ds = [] \<or> hd ?ds \<noteq> CHR ''1''"
    using b58digits_leading [of "from_bytes v"] by (cases "from_bytes v = 0") (simp_all add: b58digits.simps)
  have "CHR ''1'' \<in> set alphabet" by (simp add: alphabet_def)
  then have ok: "\<not> (\<exists>c \<in> set (b58encode v). c \<notin> set alphabet)"
    using b58digits_alphabet [of "from_bytes v"] by (auto simp: b58encode_def)
  have "b58decode (b58encode v) = Inr (replicate ?z 0 @ to_bytes (b58decode_int 0 ?ds))"
    using ok strip_ones [OF lead, of ?z]
    by (simp add: b58decode_def Let_def b58encode_def [symmetric])
  then show ?thesis
    by (simp add: b58decode_int_digits to_bytes_from_bytes zeros_then_rest)
qed

lemma decode_encode_data:
  assumes "length k = 32" and "length p = 1 \<or> length p = 2"
  shows "decode_encode k p h =
     (case split_fields (p @ k @ take 2 (blake2b (SS58PRE @ p @ k) 64)) of
        Inl e \<Rightarrow> Inl e | Inr f \<Rightarrow> verify_and_format f h)"
proof -
  let ?data = "p @ k @ take 2 (blake2b (SS58PRE @ p @ k) 64)"
  from assms have "encode k p = Inr (b58encode ?data)"
    by (auto simp: encode_def Let_def)
  moreover have "b58decode (b58encode ?data) = Inr ?data" by (rule b58_roundtrip)
  ultimately show ?thesis
    by (simp add: decode_encode_def ss58_to_pub32_decoded)
qed

lemma decode_encode_matching:
  assumes "length k = 32" and "matching_prefix p"
  shows "decode_encode k p h = Inr (if h then Hex (''0x'' @ hex k) else Raw k)"
proof -
  let ?cs = "take 2 (blake2b (SS58PRE @ p @ k) 64)"
  have lcs: "length ?cs = 2" by (simp add: length_blake2b)
  from assms(2) have lp: "length p = 1 \<or> length p = 2" by (auto simp: matching_prefix_def)
  have "split_fields (p @ k @ ?cs) = Inr \<lparr>prefix = p, pubkey = k, checksum = ?cs\<rparr>"
  proof (cases "length p = 1")
    case True
    then obtain p0 where p: "p = [p0]" by (cases p) auto
    with assms(2) have "p0 < 64" by (simp add: matching_prefix_def)
    with p assms(1) lcs show ?thesis
      by (simp add: split_fields_Cons slice_def)
  next
    case False
    with lp have "length p = 2" by simp
    then obtain p0 p1 where p: "p = [p0, p1]"
      by (cases p; cases "tl p") auto
    with assms(2) have "\<not> p0 < 64" by (simp add: matching_prefix_def)
    with p assms(1) lcs show ?thesis
      by (simp add: split_fields_Cons slice_def)
  qed
  then show ?thesis
    using assms(1) lp by (simp add: decode_encode_data verify_and_format_def slice_def)
qed

lemma decode_encode_wide_first_byte:
  assumes "length k = 32" and "p = [p0]" and "64 \<le> p0"
  shows "decode_encode k p h = Inl ChecksumMismatchError"
proof -
  let ?data = "p @ k @ take 2 (blake2b (SS58PRE @ p @ k) 64)"
  from assms have enc: "encode k p = Inr (b58encode ?data)"
    by (simp add: encode_def Let_def)
  have dec: "b58decode (b58encode ?data) = Inr ?data" by (rule b58_roundtrip)
  from assms have "truncated ?data"
    by (simp add: truncated_def length_blake2b)
  with dec have "ss58_to_pub32 (b58encode ?data) h = Inl ChecksumMismatchError"
    by (rule truncated_raises)
  with enc show ?thesis by (simp add: decode_encode_def)
qed

lemma length_known_key: "length known_key = 32"
  by (simp add: known_key_def)

lemma wide_digest_head: "take 2 (blake2b (SS58PRE @ 64 # known_key) 64) = [220, 152]"
  by (simp add: blake2b_one_block SS58PRE_def known_key_def block_words_def le_word_zeros
      F_def le_bytes_def round_fn_def sigma_perm_def G_def IV_def add64_def rotr64_def
      Let_list upt_8 upt_12 upt_16 cong: let_weak_cong)

lemma b58encode_known: "b58encode (42 # known_key @ [217, 172]) = known_address"
  by (simp add: b58encode_def from_bytes_def known_key_def known_address_def
      b58digits.simps alphabet_def)

lemma b58encode_wide: "b58encode (64 # known_key @ [220, 152]) = wide_address"
  by (simp add: b58encode_def from_bytes_def known_key_def wide_address_def
      b58digits.simps alphabet_def)

lemma encode_known: "encode known_key [42] = Inr known_address"
  by (simp add: encode_def length_known_key known_digest_head b58encode_known)

lemma encode_wide: "encode known_key [64] = Inr wide_address"
  by (simp add: encode_def length_known_key wide_digest_head b58encode_wide)

section \<open>Hexadecimal digits encode the bytes\<close>

lemma hexval_hexdigit: "n < 16 \<Longrightarrow> hexval (hexdigit n) = n"
  unfolding hexval_def hexdigit_def by (rule index_of_nth) simp_all

lemma hex_Cons: "hex (b # bs) = hexdigit (unat b div 16) # hexdigit (unat b mod 16) # hex bs"
  by (simp add: hex_def hex_byte_def)

lemma hex_nth:
  "i < length bs \<Longrightarrow>
   hex bs ! (2 * i) = hexdigit (unat (bs ! i) div 16)
   \<and> hex bs ! (2 * i + 1) = hexdigit (unat (bs ! i) mod 16)"
proof (induction bs arbitrary: i)
  case Nil
  then show ?case by simp
next
  case (Cons b bs)
  show ?case
  proof (cases i)
    case 0
    then show ?thesis by (simp add: hex_Cons)
  next
    case (Suc j)
    with Cons.prems have "j < length bs" by simp
    with Cons.IH [of j] Suc show ?thesis by (simp add: hex_Cons)
  qed
qed

lemma hex_encodes:
  assumes "i < length bs"
  shows "16 * hexval (hex bs ! (2 * i)) + hexval (hex bs ! (2 * i + 1)) = unat (bs ! i)"
proof -
  have "unat (bs ! i) < 256" using unsigned_less [of "bs ! i"] by simp
  then have "unat (bs ! i) div 16 < 16" by simp
  then have hi: "hexval (hexdigit (unat (bs ! i) div 16)) = unat (bs ! i) div 16"
    by (rule hexval_hexdigit)
  have lo: "hexval (hexdigit (unat (bs ! i) mod 16)) = unat (bs ! i) mod 16"
    by (rule hexval_hexdigit) simp
  from hex_nth [OF assms] hi lo show ?thesis by simp
qed

section \<open>The statements compute the function and write only the locals\<close>



section \<open>The claims\<close>

text \<open>
  C1. For an address whose Base58 decoding succeeds, the call ends in the checksum error
  exactly when the checksum cut out of the buffer differs from the first 2 bytes of the
  64-byte BLAKE2b digest of the tag, the prefix and the public key of the selected branch.
  The comparison is equality of byte sequences: a checksum that is only a prefix of the two
  digest bytes is different from them.
\<close>

theorem checksum_error_iff:
  assumes "b58decode s = Inr data"
  shows "ss58_to_pub32 s h = Inl ChecksumMismatchError \<longleftrightarrow>
         (\<exists>f. split_fields data = Inr f
              \<and> checksum f \<noteq> take 2 (blake2b (SS58PRE @ prefix f @ pubkey f) 64))"
proof (cases "split_fields data")
  case (Inl e)
  then have "e = IndexError"
    by (cases data) (simp_all add: split_fields_Nil split_fields_Cons split: if_splits)
  with Inl assms show ?thesis by (simp add: ss58_to_pub32_decoded)
next
  case (Inr f)
  with assms show ?thesis
    by (simp add: ss58_to_pub32_decoded verify_and_format_def Let_def slice_def)
qed

theorem checksum_error_iff_witness:
  "b58decode ''1'' = Inr [0]
   \<and> (ss58_to_pub32 ''1'' True = Inl ChecksumMismatchError \<longleftrightarrow>
        (\<exists>f. split_fields [0] = Inr f
             \<and> checksum f \<noteq> take 2 (blake2b (SS58PRE @ prefix f @ pubkey f) 64)))
   \<and> ss58_to_pub32 ''1'' True = Inl ChecksumMismatchError
   \<and> b58decode known_address = Inr (42 # known_key @ [217, 172])
   \<and> (ss58_to_pub32 known_address True = Inl ChecksumMismatchError \<longleftrightarrow>
        (\<exists>f. split_fields (42 # known_key @ [217, 172]) = Inr f
             \<and> checksum f \<noteq> take 2 (blake2b (SS58PRE @ prefix f @ pubkey f) 64)))
   \<and> ss58_to_pub32 known_address True \<noteq> Inl ChecksumMismatchError"
proof -
  have t: "truncated [0]" by (simp add: truncated_def)
  have a: "ss58_to_pub32 ''1'' True = Inl ChecksumMismatchError"
    using b58decode_one t by (rule truncated_raises)
  have b: "ss58_to_pub32 known_address True \<noteq> Inl ChecksumMismatchError"
    using decode_known [of True] by simp
  from checksum_error_iff [OF b58decode_one, of True]
    checksum_error_iff [OF b58decode_known, of True] a b b58decode_one b58decode_known
  show ?thesis by blast
qed

text \<open>
  C2. For a decoded buffer with at least one byte: when its first byte is below 64 the prefix
  is the first byte, the public key the 32 bytes from offset 1 and the checksum the 2 bytes
  from offset 33; otherwise the prefix is the first 2 bytes, the public key the 32 bytes from
  offset 2 and the checksum the 2 bytes from offset 34. A first byte of 63 takes the first
  branch and a first byte of 64 the second.
\<close>

theorem split_fields_layout:
  assumes "data \<noteq> []"
  shows "(data ! 0 < 64 \<longrightarrow>
            split_fields data = Inr \<lparr>prefix = take 1 data, pubkey = take 32 (drop 1 data),
                                    checksum = take 2 (drop 33 data)\<rparr>)
         \<and> (64 \<le> data ! 0 \<longrightarrow>
            split_fields data = Inr \<lparr>prefix = take 2 data, pubkey = take 32 (drop 2 data),
                                    checksum = take 2 (drop 34 data)\<rparr>)
         \<and> (data ! 0 = 63 \<longrightarrow> (\<exists>f. split_fields data = Inr f \<and> prefix f = [63]))
         \<and> (data ! 0 = 64 \<longrightarrow> (\<exists>f. split_fields data = Inr f \<and> prefix f = 64 # take 1 (tl data)))"
proof (cases data)
  case Nil
  with assms show ?thesis by simp
next
  case (Cons d0 ds)
  then show ?thesis
    by (cases ds) (auto simp: split_fields_Cons slice_def)
qed

theorem split_fields_layout_witness:
  "[63, 7, 9] \<noteq> ([] :: bytes) \<and> [64, 7, 9] \<noteq> ([] :: bytes)
   \<and> split_fields [63, 7, 9] = Inr \<lparr>prefix = [63], pubkey = [7, 9], checksum = []\<rparr>
   \<and> split_fields [64, 7, 9] = Inr \<lparr>prefix = [64, 7], pubkey = [9], checksum = []\<rparr>"
proof -
  have a: "[63, 7, 9] \<noteq> ([] :: bytes)" and b: "[64, 7, 9] \<noteq> ([] :: bytes)" by simp_all
  from split_fields_layout [OF a] split_fields_layout [OF b] show ?thesis by simp
qed

text \<open>
  C3, as amended. The source has no length check, so no call ends in
  \<open>MalformedAddressError\<close>. A buffer shorter than its branch needs is still always rejected
  and never sliced into a returned key: the call ends in the checksum error when the buffer
  is not empty, and in \<open>IndexError\<close> when it is empty.
\<close>

theorem short_buffer_rejected:
  assumes "b58decode s = Inr data" and "data = [] \<or> truncated data"
  shows "ss58_to_pub32 s h = Inl (if data = [] then IndexError else ChecksumMismatchError)
         \<and> ss58_to_pub32 s h \<noteq> Inl MalformedAddressError
         \<and> (\<forall>r. ss58_to_pub32 s h \<noteq> Inr r)"
proof (cases "data = []")
  case True
  with assms(1) have "ss58_to_pub32 s h = Inl IndexError" by (simp add: empty_raises)
  with True show ?thesis by simp
next
  case False
  with assms(2) have "truncated data" by simp
  with assms(1) have "ss58_to_pub32 s h = Inl ChecksumMismatchError" by (rule truncated_raises)
  with False show ?thesis by simp
qed

theorem short_buffer_rejected_witness:
  "b58decode ''1'' = Inr [0] \<and> ([0] = ([] :: bytes) \<or> truncated [0])
   \<and> ss58_to_pub32 ''1'' True = Inl ChecksumMismatchError
   \<and> ss58_to_pub32 ''1'' True \<noteq> Inl MalformedAddressError
   \<and> (\<forall>r. ss58_to_pub32 ''1'' True \<noteq> Inr r)"
proof -
  have t: "[0] = ([] :: bytes) \<or> truncated [0]" by (simp add: truncated_def)
  from short_buffer_rejected [OF b58decode_one t, of True] b58decode_one t
  show ?thesis by simp
qed

text \<open>
  The claim C3 as stated fails: the address \<^verbatim>\<open>1\<close> decodes to the single byte 0, which is
  shorter than 35 bytes, and the call ends in the checksum error, not in
  \<open>MalformedAddressError\<close>.
\<close>

theorem malformed_address_error_counterexample:
  "b58decode ''1'' = Inr [0] \<and> length [0 :: byte] < 35
   \<and> ss58_to_pub32 ''1'' True = Inl ChecksumMismatchError
   \<and> ss58_to_pub32 ''1'' True \<noteq> Inl MalformedAddressError"
proof -
  have "truncated [0]" by (simp add: truncated_def)
  with b58decode_one have "ss58_to_pub32 ''1'' True = Inl ChecksumMismatchError"
    by (rule truncated_raises)
  with b58decode_one show ?thesis by simp
qed

text \<open>
  C4, as amended. When the call returns, the decoded buffer has at least the length of its
  branch: 35 bytes or more when the first byte is below 64, 36 bytes or more otherwise.
  Nothing is required of the bytes after the checksum: they are never read, and a buffer
  with bytes appended has the same three fields.
\<close>

theorem success_min_length:
  assumes "ss58_to_pub32 s h = Inr r" and "b58decode s = Inr data"
  shows "data \<noteq> []
         \<and> (if data ! 0 < 64 then 35 \<le> length data else 36 \<le> length data)
         \<and> (\<forall>extra. split_fields (data @ extra) = split_fields data)"
proof -
  from assms have ne: "data \<noteq> []" and nt: "\<not> truncated data"
    using success_not_truncated by blast+
  from ne nt have len: "if data ! 0 < 64 then 35 \<le> length data else 36 \<le> length data"
    by (auto simp: truncated_def split: if_splits)
  have "split_fields (data @ extra) = split_fields data" for extra
  proof (cases data)
    case Nil
    with ne show ?thesis by simp
  next
    case (Cons d0 ds)
    with len show ?thesis
      by (auto simp: split_fields_Cons slice_def split: if_splits)
  qed
  with ne len show ?thesis by blast
qed

theorem success_min_length_witness:
  "ss58_to_pub32 known_address True = Inr (Hex (''0x'' @ hex known_key))
   \<and> b58decode known_address = Inr (42 # known_key @ [217, 172])
   \<and> 42 # known_key @ [217, 172] \<noteq> []
   \<and> (if (42 # known_key @ [217, 172]) ! 0 < 64
       then 35 \<le> length (42 # known_key @ [217, 172])
       else 36 \<le> length (42 # known_key @ [217, 172]))
   \<and> (\<forall>extra. split_fields ((42 # known_key @ [217, 172]) @ extra)
                = split_fields (42 # known_key @ [217, 172]))"
proof -
  have d: "ss58_to_pub32 known_address True = Inr (Hex (''0x'' @ hex known_key))"
    using decode_known [of True] by simp
  from success_min_length [OF d b58decode_known] d b58decode_known show ?thesis
    by blast
qed

text \<open>
  The claim C4 as stated fails: the Base58 string of the 35 bytes of the known address
  followed by a zero byte decodes to 36 bytes with first byte 42, in the one-byte-prefix
  branch, and the call returns the key.
\<close>

theorem exact_length_counterexample:
  "b58decode padded_address = Inr (42 # known_key @ [217, 172, 0])
   \<and> (42 :: byte) < 64
   \<and> length (42 # known_key @ [217, 172, 0]) = 36
   \<and> ss58_to_pub32 padded_address False = Inr (Raw known_key)"
  using b58decode_padded decode_padded [of False] by (simp add: known_key_def)

text \<open>
  C5. When the call returns, the key it returns is the public-key field of the decoded
  buffer: the 32 bytes after the prefix, whose checksum field equals the first 2 bytes of
  the digest. Without the flag the result is that byte sequence. With the flag it is the
  string \<^verbatim>\<open>0x\<close> followed by 64 characters, all of them lowercase hexadecimal digits, of
  which the two at positions \<open>2 i\<close> and \<open>2 i + 1\<close> are the high and the low digit of byte
  \<open>i\<close> of the key.
\<close>

theorem success_returns_pubkey:
  assumes "ss58_to_pub32 s h = Inr r"
  shows "\<exists>data f. b58decode s = Inr data \<and> split_fields data = Inr f
           \<and> pubkey f = take 32 (drop (if data ! 0 < 64 then 1 else 2) data)
           \<and> length (pubkey f) = 32
           \<and> checksum f = take 2 (blake2b (SS58PRE @ prefix f @ pubkey f) 64)
           \<and> (if h
               then \<exists>ds. r = Hex (''0x'' @ ds) \<and> length ds = 64
                      \<and> set ds \<subseteq> set ''0123456789abcdef''
                      \<and> (\<forall>i < 32. 16 * hexval (ds ! (2 * i)) + hexval (ds ! (2 * i + 1))
                                      = unat (pubkey f ! i))
               else r = Raw (pubkey f))"
proof -
  from assms obtain data f where d: "b58decode s = Inr data"
    and f: "split_fields data = Inr f" and v: "verify_and_format f h = Inr r"
    using success_fields by blast
  from assms d have ne: "data \<noteq> []" and nt: "\<not> truncated data"
    using success_not_truncated by blast+
  from ne nt f have len: "length (pubkey f) = 32" by (rule full_length_pubkey)
  from ne f have pk: "pubkey f = take 32 (drop (if data ! 0 < 64 then 1 else 2) data)"
    by (cases data) (auto simp: split_fields_Cons slice_def split: if_splits)
  from v have cs: "checksum f = take 2 (blake2b (SS58PRE @ prefix f @ pubkey f) 64)"
    and r: "r = (if h then Hex (''0x'' @ hex (pubkey f)) else Raw (pubkey f))"
    using verify_and_format_Inr by blast+
  have out: "if h
      then \<exists>ds. r = Hex (''0x'' @ ds) \<and> length ds = 64
             \<and> set ds \<subseteq> set ''0123456789abcdef''
             \<and> (\<forall>i < 32. 16 * hexval (ds ! (2 * i)) + hexval (ds ! (2 * i + 1))
                             = unat (pubkey f ! i))
      else r = Raw (pubkey f)"
  proof (cases h)
    case True
    have "length (hex (pubkey f)) = 64" using len by (simp add: length_hex)
    moreover have "set (hex (pubkey f)) \<subseteq> set ''0123456789abcdef''" by (rule hex_lower)
    moreover have "\<forall>i < 32. 16 * hexval (hex (pubkey f) ! (2 * i))
        + hexval (hex (pubkey f) ! (2 * i + 1)) = unat (pubkey f ! i)"
      using len hex_encodes [of _ "pubkey f"] by simp
    moreover from True r have "r = Hex (''0x'' @ hex (pubkey f))" by simp
    ultimately have "\<exists>ds. r = Hex (''0x'' @ ds) \<and> length ds = 64
             \<and> set ds \<subseteq> set ''0123456789abcdef''
             \<and> (\<forall>i < 32. 16 * hexval (ds ! (2 * i)) + hexval (ds ! (2 * i + 1))
                             = unat (pubkey f ! i))"
      by blast
    with True show ?thesis by simp
  next
    case False
    with r show ?thesis by simp
  qed
  from d f pk len cs out show ?thesis by blast
qed

theorem success_returns_pubkey_witness:
  "ss58_to_pub32 known_address True
     = Inr (Hex ''0x6a23ba551f3d2e342e9c4d03098fae3b0185b831b50ac71ce4b496b1694abb56'')
   \<and> (\<exists>data f. b58decode known_address = Inr data \<and> split_fields data = Inr f
           \<and> pubkey f = take 32 (drop (if data ! 0 < 64 then 1 else 2) data)
           \<and> length (pubkey f) = 32
           \<and> checksum f = take 2 (blake2b (SS58PRE @ prefix f @ pubkey f) 64)
           \<and> (if True
               then \<exists>ds. Hex ''0x6a23ba551f3d2e342e9c4d03098fae3b0185b831b50ac71ce4b496b1694abb56''
                          = Hex (''0x'' @ ds) \<and> length ds = 64
                      \<and> set ds \<subseteq> set ''0123456789abcdef''
                      \<and> (\<forall>i < 32. 16 * hexval (ds ! (2 * i)) + hexval (ds ! (2 * i + 1))
                                      = unat (pubkey f ! i))
               else Hex ''0x6a23ba551f3d2e342e9c4d03098fae3b0185b831b50ac71ce4b496b1694abb56''
                      = Raw (pubkey f)))"
proof -
  have d: "ss58_to_pub32 known_address True
     = Inr (Hex ''0x6a23ba551f3d2e342e9c4d03098fae3b0185b831b50ac71ce4b496b1694abb56'')"
    using decode_known [of True] by (simp add: hex_known_key)
  from success_returns_pubkey [OF d] d show ?thesis by blast
qed

text \<open>
  C6. An input with at least one character outside the Base58 alphabet (58 distinct
  characters, without \<^verbatim>\<open>0\<close>, \<^verbatim>\<open>O\<close>, \<^verbatim>\<open>I\<close> and \<^verbatim>\<open>l\<close>) ends in \<open>DecodeError\<close>: the decoder fails,
  so no buffer exists to be sliced or hashed, and the error is the result of the call.
\<close>

theorem alphabet_rejection:
  assumes "\<exists>c \<in> set s. c \<notin> set alphabet"
  shows "b58decode s = Inl DecodeError \<and> ss58_to_pub32 s h = Inl DecodeError
         \<and> (\<forall>data. b58decode s \<noteq> Inr data)"
  using assms by (simp add: ss58_to_pub32_def b58decode_def)

theorem alphabet_rejection_witness:
  "(\<exists>c \<in> set ''5ETs0''. c \<notin> set alphabet)
   \<and> b58decode ''5ETs0'' = Inl DecodeError \<and> ss58_to_pub32 ''5ETs0'' True = Inl DecodeError
   \<and> (\<forall>data. b58decode ''5ETs0'' \<noteq> Inr data)"
proof -
  have x: "\<exists>c \<in> set ''5ETs0''. c \<notin> set alphabet" by (simp add: alphabet_def)
  from alphabet_rejection [OF x, of True] x show ?thesis by blast
qed

text \<open>
  C7, as amended. For every 32-byte key \<open>k\<close> and every prefix \<open>p\<close> that is one byte below 64
  or two bytes of which the first is at least 64, the encoder succeeds and decoding its
  string returns \<open>k\<close>: as raw bytes without the flag, as \<^verbatim>\<open>0x\<close> and the hexadecimal digits of
  \<open>k\<close> with it.
\<close>

theorem roundtrip_matching_prefix:
  assumes "length k = 32" and "matching_prefix p"
  shows "(\<exists>a. encode k p = Inr a)
         \<and> decode_encode k p False = Inr (Raw k)
         \<and> decode_encode k p True = Inr (Hex (''0x'' @ hex k))"
proof -
  from assms have "encode k p \<noteq> Inl InvalidInputError"
    by (auto simp: encode_def matching_prefix_def Let_def)
  then have "\<exists>a. encode k p = Inr a"
    by (auto simp: encode_def Let_def split: if_splits)
  moreover have "decode_encode k p False = Inr (Raw k)"
    using decode_encode_matching [OF assms, of False] by simp
  moreover have "decode_encode k p True = Inr (Hex (''0x'' @ hex k))"
    using decode_encode_matching [OF assms, of True] by simp
  ultimately show ?thesis by simp
qed

theorem roundtrip_matching_prefix_witness:
  "length known_key = 32 \<and> matching_prefix [42]
   \<and> encode known_key [42] = Inr known_address
   \<and> (\<exists>a. encode known_key [42] = Inr a)
   \<and> decode_encode known_key [42] False = Inr (Raw known_key)
   \<and> decode_encode known_key [42] True = Inr (Hex (''0x'' @ hex known_key))"
proof -
  have m: "matching_prefix [42]" by (simp add: matching_prefix_def)
  from roundtrip_matching_prefix [OF length_known_key m] length_known_key m encode_known
  show ?thesis by simp
qed

text \<open>
  The claim C7 as stated fails for the one-byte prefix 64: the encoder gives a string of 35
  bytes whose first byte is 64, the decoder takes the two-byte-prefix branch, finds a
  one-byte checksum, and ends in the checksum error.
\<close>

theorem roundtrip_counterexample:
  "length known_key = 32 \<and> length [64 :: byte] = 1
   \<and> encode known_key [64] = Inr wide_address
   \<and> ss58_to_pub32 wide_address False = Inl ChecksumMismatchError
   \<and> decode_encode known_key [64] False \<noteq> Inr (Raw known_key)"
proof -
  have "decode_encode known_key [64] False = Inl ChecksumMismatchError"
    by (rule decode_encode_wide_first_byte [OF length_known_key refl]) simp
  moreover from this have "ss58_to_pub32 wide_address False = Inl ChecksumMismatchError"
    by (simp add: decode_encode_def encode_wide)
  ultimately show ?thesis using length_known_key encode_wide by simp
qed



text \<open>
  C9. When the Base58 decoding of the input yields the empty buffer, as it does for the
  empty string, reading \<^verbatim>\<open>data[0]\<close> is out of range: the call ends in \<open>IndexError\<close>, which
  is none of the three errors of the specification, and no value is returned.
\<close>

theorem empty_buffer_index_error:
  assumes "b58decode s = Inr []"
  shows "ss58_to_pub32 s h = Inl IndexError
         \<and> ss58_to_pub32 s h \<notin> {Inl DecodeError, Inl MalformedAddressError, Inl ChecksumMismatchError}
         \<and> (\<forall>r. ss58_to_pub32 s h \<noteq> Inr r)"
  using empty_raises [OF assms, of h] by simp

theorem empty_buffer_index_error_witness:
  "b58decode [] = Inr []
   \<and> ss58_to_pub32 [] True = Inl IndexError
   \<and> ss58_to_pub32 [] True \<notin> {Inl DecodeError, Inl MalformedAddressError, Inl ChecksumMismatchError}
   \<and> (\<forall>r. ss58_to_pub32 [] True \<noteq> Inr r)"
  using empty_buffer_index_error [OF b58decode_empty, of True] b58decode_empty by simp

text \<open>
  C10. When the decoded buffer is not empty but shorter than 35 bytes in the one-byte-prefix
  branch, or shorter than 36 bytes in the two-byte-prefix branch, the checksum slice has
  fewer than 2 bytes while the recomputed checksum has exactly 2, so the comparison fails:
  the call always ends in the checksum error and never returns a key.
\<close>

theorem truncated_buffer_checksum_error:
  assumes "b58decode s = Inr data" and "truncated data"
  shows "\<exists>f. split_fields data = Inr f
             \<and> length (checksum f) < 2
             \<and> length (take 2 (blake2b (SS58PRE @ prefix f @ pubkey f) 64)) = 2
             \<and> ss58_to_pub32 s h = Inl ChecksumMismatchError
             \<and> (\<forall>r. ss58_to_pub32 s h \<noteq> Inr r)"
proof -
  from assms(2) have "data \<noteq> []" by (simp add: truncated_def)
  then obtain f where f: "split_fields data = Inr f"
    using split_fields_Inr_iff by blast
  have len: "length (checksum f) < 2"
    using assms(2) f by (rule truncated_checksum_length)
  have "length (take 2 (blake2b (SS58PRE @ prefix f @ pubkey f) 64)) = 2"
    by (simp add: length_blake2b)
  moreover have "ss58_to_pub32 s h = Inl ChecksumMismatchError"
    using assms by (rule truncated_raises)
  ultimately show ?thesis using f len by simp
qed

theorem truncated_buffer_checksum_error_witness:
  "b58decode ''1'' = Inr [0] \<and> truncated [0]
   \<and> (\<exists>f. split_fields [0] = Inr f
          \<and> length (checksum f) < 2
          \<and> length (take 2 (blake2b (SS58PRE @ prefix f @ pubkey f) 64)) = 2
          \<and> ss58_to_pub32 ''1'' False = Inl ChecksumMismatchError
          \<and> (\<forall>r. ss58_to_pub32 ''1'' False \<noteq> Inr r))"
proof -
  have t: "truncated [0]" by (simp add: truncated_def)
  from truncated_buffer_checksum_error [OF b58decode_one t, of False] b58decode_one t
  show ?thesis by blast
qed

end
